theory Spec2Isabelle
  imports Complex_Main
begin

section \<open>Configuration constants (check\_api.js, lines 13--20)\<close>

definition MAX_DAYS :: nat where
  "MAX_DAYS = 30"

definition WARN_STREAK :: nat where
  "WARN_STREAK = 3"

definition MAX_RETRY :: nat where
  "MAX_RETRY = 2"

definition RETRY_DELAY_MS :: nat where
  "RETRY_DELAY_MS = 500"

section \<open>Data model\<close>

text \<open>
  The display symbols of the script are non-ASCII string literals; each family of
  literals is an enumeration here.

  \<^item> \<open>search_status\<close>: \<open>NotTested\<close> is "-", \<open>Skipped\<close> is the literal of line 186
    (a disabled endpoint), \<open>Slow\<close> the literal of line 191, \<open>Pass\<close> the check mark
    (U+2705), \<open>Fail\<close> the cross (U+274C), \<open>NoResults\<close> the literal of line 134 and
    \<open>Mismatch\<close> the second literal of line 135.
  \<^item> \<open>status_symbol\<close>: \<open>StatusAlert\<close> is U+1F6A8, \<open>StatusFail\<close> is U+274C (the initial
    value of line 212), \<open>StatusOk\<close> is U+2705, \<open>StatusDisabled\<close> is U+1F6AB.
  \<^item> \<open>tier\<close>: the three literals of lines 253--255 and \<open>NoTier\<close>, the initial
    value "-" of the field \<open>reliable\<close> (line 212).
\<close>

datatype search_status = NotTested | Skipped | Slow | Pass | Fail | NoResults | Mismatch

datatype status_symbol = StatusAlert | StatusFail | StatusOk | StatusDisabled

datatype tier = High | Medium | Low | NoTier

text \<open>
  The objects of the script share the fields \<open>name\<close>, \<open>api\<close> and \<open>disabled\<close>; the records
  below extend that common part. \<open>config_site\<close> is a value of \<open>config.api_site\<close> with
  \<open>disabled\<close> already read for its truth value, \<open>endpoint\<close> an element of \<open>apiEntries\<close>
  (lines 175--180), \<open>result\<close> an element of \<open>todayResults\<close> and of the \<open>results\<close> of a
  history record (lines 186 and 195; the disabled branch leaves \<open>latencyMs\<close> out), and
  \<open>stats\<close> the fields of \<open>stats[api]\<close> (line 212) that the rate, the tier and the status
  depend on.
\<close>

record site_id =
  name :: string
  api :: string
  disabled :: bool

record config_site = site_id +
  detail_field :: "string option"

record endpoint = site_id +
  detail :: string

record result = site_id +
  success :: bool
  latencyMs :: "int option"
  searchStatus :: search_status

record run_record =
  date :: string
  keyword :: string
  results :: "result list"

record stats = endpoint +
  ok :: nat
  fail :: nat
  successRate :: "rat option"
  latencyAvgMs :: "int option"
  reliable :: tier
  status :: status_symbol

section \<open>History window (lines 206--207)\<close>

text \<open>\<open>xs.slice(-n)\<close> for \<open>n > 0\<close>: the last \<open>n\<close> elements, all of \<open>xs\<close> when it is shorter.\<close>

definition slice_last :: "nat \<Rightarrow> 'a list \<Rightarrow> 'a list" where
  "slice_last n xs = drop (length xs - n) xs"

text \<open>\<open>history.push(todayRecord); if (history.length > MAX_DAYS) history = history.slice(-MAX_DAYS)\<close>\<close>

definition push_today :: "'a list \<Rightarrow> 'a \<Rightarrow> 'a list" where
  "push_today history todayRecord =
     (let h = history @ [todayRecord]
      in if length h > MAX_DAYS then slice_last MAX_DAYS h else h)"

section \<open>History aggregation (lines 211--261)\<close>

text \<open>\<open>day.results.find(x => x.api === api)\<close>\<close>

definition find_rec :: "string \<Rightarrow> run_record \<Rightarrow> result option" where
  "find_rec a day = find (\<lambda>x. api x = a) (results day)"

text \<open>
  The counting loop of lines 214--221, oldest record first; the accumulator is
  \<open>(ok, fail, latencies)\<close>.
\<close>

fun tally :: "string \<Rightarrow> run_record list \<Rightarrow> nat \<times> nat \<times> int list \<Rightarrow> nat \<times> nat \<times> int list" where
  "tally a [] acc = acc"
| "tally a (day # days) (k, f, ls) =
     (case find_rec a day of
        None \<Rightarrow> tally a days (k, f, ls)
      | Some rec \<Rightarrow>
          tally a days
            (if success rec then k + 1 else k,
             if success rec then f else f + 1,
             case latencyMs rec of Some l \<Rightarrow> ls @ [l] | None \<Rightarrow> ls))"

text \<open>
  The streak loop of lines 223--229. The list is the history newest first, as the loop
  index runs down from \<open>history.length - 1\<close>: a record without an entry is passed over
  (\<open>continue\<close>), a success ends the loop (\<open>break\<close>).
\<close>

fun streak_scan :: "string \<Rightarrow> run_record list \<Rightarrow> nat \<Rightarrow> nat" where
  "streak_scan a [] streak = streak"
| "streak_scan a (day # older) streak =
     (case find_rec a day of
        None \<Rightarrow> streak_scan a older streak
      | Some rec \<Rightarrow> if success rec then streak else streak_scan a older (streak + 1))"

definition streak :: "string \<Rightarrow> run_record list \<Rightarrow> nat" where
  "streak a history = streak_scan a (rev history) 0"

text \<open>
  The streak as the specification words it: newest to oldest, counting failing entries,
  stopping at the first success or at the first record lacking an entry.
\<close>

fun streak_spec_scan :: "string \<Rightarrow> run_record list \<Rightarrow> nat" where
  "streak_spec_scan a [] = 0"
| "streak_spec_scan a (day # older) =
     (case find_rec a day of
        None \<Rightarrow> 0
      | Some rec \<Rightarrow> if success rec then 0 else 1 + streak_spec_scan a older)"

definition streak_spec :: "string \<Rightarrow> run_record list \<Rightarrow> nat" where
  "streak_spec a history = streak_spec_scan a (rev history)"

text \<open>The entries of one endpoint, oldest first; records without an entry contribute none.\<close>

definition entries_of :: "string \<Rightarrow> run_record list \<Rightarrow> result list" where
  "entries_of a history = List.map_filter (find_rec a) history"

text \<open>
  \<open>x.toFixed(1)\<close> read back by \<open>parseFloat\<close>: the decimal with one fractional digit
  nearest to \<open>x\<close>, the larger one at a tie; a negative \<open>x\<close> is rounded as \<open>-x\<close> is.
  \<open>Math.round(x)\<close> is the nearest integer, the larger one at a tie. The quotients of
  counts and of millisecond sums that the script rounds are taken as exact rationals.
\<close>

definition toFixed1 :: "rat \<Rightarrow> rat" where
  "toFixed1 x =
     (if x < 0 then - (of_int \<lfloor>- x * 10 + 1 / 2\<rfloor> / 10) else of_int \<lfloor>x * 10 + 1 / 2\<rfloor> / 10)"

definition Math_round :: "rat \<Rightarrow> int" where
  "Math_round x = \<lfloor>x + 1 / 2\<rfloor>"

text \<open>
  Line 231 followed by \<open>parseFloat\<close> (line 250): \<open>None\<close> is the string "-", whose
  \<open>parseFloat\<close> is NaN.
\<close>

definition success_rate :: "nat \<Rightarrow> nat \<Rightarrow> rat option" where
  "success_rate k f =
     (let total = k + f
      in if total > 0 then Some (toFixed1 (of_nat k / of_nat total * 100)) else None)"

text \<open>Lines 245--248: \<open>None\<close> is the placeholder "-" that \<open>latencyAvgMs\<close> keeps.\<close>

definition latency_avg :: "int list \<Rightarrow> int option" where
  "latency_avg ls =
     (if length ls > 0 then Some (Math_round (of_int (sum_list ls) / of_nat (length ls)))
      else None)"

text \<open>
  \<open>avgLatency < limit\<close> with \<open>avgLatency\<close> being \<open>Infinity\<close> when \<open>latencyAvgMs\<close> is not a
  number (line 251).
\<close>

definition avg_below :: "int option \<Rightarrow> int \<Rightarrow> bool" where
  "avg_below avg limit = (case avg of None \<Rightarrow> False | Some v \<Rightarrow> v < limit)"

text \<open>Lines 250--256: nothing is assigned when the rate is NaN.\<close>

definition reliable_tier :: "rat option \<Rightarrow> int option \<Rightarrow> tier" where
  "reliable_tier rateNum avg =
     (case rateNum of
        None \<Rightarrow> NoTier
      | Some r \<Rightarrow>
          if r \<ge> 90 \<and> avg_below avg 2500 then High
          else if r \<ge> 70 \<and> avg_below avg 5000 then Medium
          else Low)"

text \<open>Lines 258--260; \<open>latest\<close> is \<open>todayResults.find(x => x.api === api)\<close>.\<close>

definition status_of :: "bool \<Rightarrow> nat \<Rightarrow> result option \<Rightarrow> status_symbol" where
  "status_of dis strk latest =
     (if dis then StatusDisabled
      else if strk \<ge> WARN_STREAK then StatusAlert
      else if (case latest of Some r \<Rightarrow> success r | None \<Rightarrow> False) then StatusOk
      else StatusFail)"

text \<open>One iteration of the loop of line 211, for one element of \<open>apiEntries\<close>.\<close>

definition stats_entry :: "endpoint \<Rightarrow> run_record list \<Rightarrow> result list \<Rightarrow> stats" where
  "stats_entry e history todayResults =
     (case tally (api e) history (0, 0, []) of
        (k, f, ls) \<Rightarrow>
          let rate = success_rate k f;
              avg = latency_avg ls;
              latest = find (\<lambda>x. api x = api e) todayResults
          in \<lparr> name = name e, api = api e, disabled = disabled e, detail = detail e,
               ok = k, fail = f, successRate = rate, latencyAvgMs = avg,
               reliable = reliable_tier rate avg,
               status = status_of (disabled e) (streak (api e) history) latest \<rparr>)"

text \<open>Lines 175--180: \<open>detail: s.detail || "-"\<close>.\<close>

definition to_endpoint :: "config_site \<Rightarrow> endpoint" where
  "to_endpoint s =
     \<lparr> name = name s, api = api s, disabled = disabled s,
       detail = (case detail_field s of None \<Rightarrow> ''-'' | Some d \<Rightarrow> if d = [] then ''-'' else d) \<rparr>"

text \<open>
  The object \<open>stats\<close>, keyed by \<open>api\<close>: the loop assigns \<open>stats[api]\<close> for each element of
  \<open>apiEntries\<close> in order, so a later element with the same \<open>api\<close> replaces an earlier one.
\<close>

definition stats_table :: "endpoint list \<Rightarrow> run_record list \<Rightarrow> result list \<Rightarrow> (string \<rightharpoonup> stats)" where
  "stats_table apiEntries history todayResults =
     fold (\<lambda>e m. m(api e \<mapsto> stats_entry e history todayResults)) apiEntries Map.empty"

text \<open>
  Lines 358--367: the entries of \<open>config.api_site\<close>, in the order of \<open>Object.entries\<close>,
  that end up as properties of \<open>reliable\<close>. The object starts as \<open>{}\<close>, and on such an
  object the assignment \<open>reliable[key] = val\<close> (line 365) adds the property \<open>key\<close> for
  every key but \<open>__proto__\<close>: there it replaces the prototype of \<open>reliable\<close>, and no
  property appears in \<open>reliable-config.json\<close>.
\<close>

definition is_reliable :: "(string \<rightharpoonup> stats) \<Rightarrow> config_site \<Rightarrow> bool" where
  "is_reliable st val =
     (case st (api val) of
        None \<Rightarrow> False
      | Some s \<Rightarrow>
          (case successRate s of None \<Rightarrow> False | Some rate \<Rightarrow> rate \<ge> 90)
          \<and> status s \<noteq> StatusAlert)"

definition reliable_sites :: "(string \<times> config_site) list \<Rightarrow> (string \<rightharpoonup> stats) \<Rightarrow> (string \<times> config_site) list" where
  "reliable_sites entries st =
     filter (\<lambda>(key, val). is_reliable st val \<and> key \<noteq> ''__proto__'') entries"

text \<open>
  The part of the main function between \<open>queueRun\<close> and the reports, as a function of
  the configuration, the history read from the old report, and today's results.
\<close>

definition aggregate_run :: "(string \<times> config_site) list \<Rightarrow> run_record list \<Rightarrow> run_record \<Rightarrow> (string \<times> config_site) list" where
  "aggregate_run entries history todayRecord =
     (let h = push_today history todayRecord
      in reliable_sites entries
           (stats_table (map (to_endpoint \<circ> snd) entries) h (results todayRecord)))"

section \<open>Retrying probes (lines 87--141)\<close>

text \<open>
  An awaited call either resolves with a value or rejects; inside a \<open>try\<close> block a
  rejection is the exception the \<open>catch\<close> clause receives. A call of an \<open>async\<close>
  function completes by returning a value, by running off the end of its body (the value
  \<open>undefined\<close>), or by raising to its caller.
\<close>

datatype 'a awaited = Resolves 'a | Rejects

datatype 'a completion = Value 'a | NoValue | Raise

text \<open>
  What a retrying function does besides computing its result: \<open>Attempt k\<close> marks the
  start of iteration \<open>k\<close> of its loop, \<open>Delay ms\<close> a call \<open>await delay(ms)\<close>.
\<close>

datatype event = Attempt nat | Delay nat

text \<open>
  The network as one attempt of \<open>safeGet\<close> meets it: \<open>head_res\<close> is the status of the
  response of \<open>axiosInstance.head\<close>, \<open>stream_res\<close> the status of the response of the
  streaming \<open>axiosInstance.get\<close> with the time to the first \<open>data\<close> event when there is
  one, and \<open>elapsed\<close> the value of \<open>Date.now() - start\<close> where the attempt reads it.
  A probe outcome is the pair \<open>(success, latencyMs)\<close>.
\<close>

record probe_io =
  head_res :: "int awaited"
  stream_res :: "(int \<times> int option) awaited"
  elapsed :: int

type_synonym probe_outcome = "bool \<times> int"

text \<open>The inner \<open>try\<close>/\<open>catch\<close> of lines 94--118.\<close>

definition probe_once :: "probe_io \<Rightarrow> probe_outcome awaited" where
  "probe_once io =
     (case head_res io of
        Resolves st \<Rightarrow> Resolves (st = 200, elapsed io)
      | Rejects \<Rightarrow>
          (case stream_res io of
             Resolves (st, ttfb) \<Rightarrow>
               Resolves (st = 200, case ttfb of Some t \<Rightarrow> t | None \<Rightarrow> elapsed io)
           | Rejects \<Rightarrow> Rejects))"

text \<open>
  The loop of lines 91--124 from iteration \<open>attempt\<close> on; \<open>trace\<close> holds the events so
  far. The \<open>catch\<close> clause of lines 119--123 calls nothing that can fail.
\<close>

function safeGet_loop :: "(nat \<Rightarrow> probe_io) \<Rightarrow> nat \<Rightarrow> event list \<Rightarrow> event list \<times> probe_outcome completion" where
  "safeGet_loop io attempt trace =
     (if attempt \<le> MAX_RETRY then
        (case probe_once (io attempt) of
           Resolves r \<Rightarrow> (trace @ [Attempt attempt], Value r)
         | Rejects \<Rightarrow>
             if attempt < MAX_RETRY
             then safeGet_loop io (attempt + 1)
                    (trace @ [Attempt attempt, Delay (RETRY_DELAY_MS * attempt)])
             else (trace @ [Attempt attempt], Value (False, elapsed (io attempt))))
      else (trace, NoValue))"
  by pat_completeness auto
termination
  by (relation "measure (\<lambda>(io, attempt, trace). MAX_RETRY + 1 - attempt)") auto

declare safeGet_loop.simps [simp del]

definition safeGet :: "(nat \<Rightarrow> probe_io) \<Rightarrow> event list \<times> probe_outcome completion" where
  "safeGet io = safeGet_loop io 1 []"

section \<open>Search validation (lines 127--141)\<close>

text \<open>
  A response body as \<open>axios\<close> hands it over: parsed JSON, or the text of a body that is
  not JSON (\<open>JStr\<close>). Strings are byte strings (UTF-8); an object is the list of its
  properties in the order \<open>JSON.stringify\<close> visits them, each key once; a number is
  given by the text \<open>JSON.stringify\<close> prints for it, which is \<open>0\<close> for a zero of either
  sign.
\<close>

datatype json =
    JNull
  | JBool bool
  | JNum string
  | JStr string
  | JArr "json list"
  | JObj "(string \<times> json) list"

record response =
  resp_status :: int
  resp_data :: json

text \<open>\<open>!v\<close> is \<open>\<not> truthy v\<close>; \<open>typeof v === "object"\<close> holds of \<open>null\<close>, arrays and objects.\<close>

fun truthy :: "json \<Rightarrow> bool" where
  "truthy JNull = False"
| "truthy (JBool b) = b"
| "truthy (JNum n) = (n \<noteq> ''0'')"
| "truthy (JStr s) = (s \<noteq> [])"
| "truthy (JArr xs) = True"
| "truthy (JObj kvs) = True"

fun typeof_object :: "json \<Rightarrow> bool" where
  "typeof_object JNull = True"
| "typeof_object (JArr xs) = True"
| "typeof_object (JObj kvs) = True"
| "typeof_object v = False"

text \<open>
  \<open>d.list\<close> for a body \<open>d\<close> that is an array or an object; \<open>None\<close> is \<open>undefined\<close>.
  Neither an array nor the prototype of a parsed object has a property of that name.
\<close>

fun list_prop :: "json \<Rightarrow> json option" where
  "list_prop (JObj kvs) = map_of kvs ''list''"
| "list_prop v = None"

text \<open>
  Whether \<open>v.length\<close> is truthy, for a truthy \<open>v\<close>: the length of an array or of a
  string, the property \<open>length\<close> of an object if it has one; \<open>undefined\<close> on a number
  and on \<open>true\<close>.
\<close>

fun has_length :: "json \<Rightarrow> bool" where
  "has_length (JArr xs) = (xs \<noteq> [])"
| "has_length (JStr s) = (s \<noteq> [])"
| "has_length (JObj kvs) = (case map_of kvs ''length'' of None \<Rightarrow> False | Some l \<Rightarrow> truthy l)"
| "has_length v = False"

text \<open>\<open>JSON.stringify\<close>; \<open>digit_char\<close> is a hexadecimal digit.\<close>

definition digit_char :: "nat \<Rightarrow> char" where
  "digit_char n = ''0123456789abcdef'' ! n"

text \<open>
  The quote (0x22) and the backslash (0x5C) get a backslash, the control characters
  their short escape or \<open>\u00xx\<close>, every other character stands for itself.
\<close>

definition escape_char :: "char \<Rightarrow> string" where
  "escape_char c =
     (if c = CHR 0x22 then [CHR 0x5C, CHR 0x22]
      else if c = CHR 0x5C then [CHR 0x5C, CHR 0x5C]
      else if c = CHR 0x08 then [CHR 0x5C, CHR ''b'']
      else if c = CHR 0x09 then [CHR 0x5C, CHR ''t'']
      else if c = CHR 0x0A then [CHR 0x5C, CHR ''n'']
      else if c = CHR 0x0C then [CHR 0x5C, CHR ''f'']
      else if c = CHR 0x0D then [CHR 0x5C, CHR ''r'']
      else if (of_char c :: nat) < 32
        then [CHR 0x5C, CHR ''u'', CHR ''0'', CHR ''0'',
              digit_char (of_char c div 16), digit_char (of_char c mod 16)]
      else [c])"

definition quote :: "string \<Rightarrow> string" where
  "quote s = CHR 0x22 # concat (map escape_char s) @ [CHR 0x22]"

fun join_commas :: "string list \<Rightarrow> string" where
  "join_commas [] = []"
| "join_commas [x] = x"
| "join_commas (x # y # ys) = x @ CHR '','' # join_commas (y # ys)"

fun stringify :: "json \<Rightarrow> string" where
  "stringify JNull = ''null''"
| "stringify (JBool b) = (if b then ''true'' else ''false'')"
| "stringify (JNum n) = n"
| "stringify (JStr s) = quote s"
| "stringify (JArr xs) = CHR ''['' # join_commas (map stringify xs) @ '']''"
| "stringify (JObj kvs) =
     CHR ''{'' # join_commas (map (\<lambda>(k, v). quote k @ CHR '':'' # stringify v) kvs) @ ''}''"

text \<open>\<open>s.includes(kw)\<close>: \<open>kw\<close> occurs in \<open>s\<close> as a contiguous piece.\<close>

fun str_includes :: "string \<Rightarrow> string \<Rightarrow> bool" where
  "str_includes [] kw = (kw = [])"
| "str_includes (c # cs) kw = (take (length kw) (c # cs) = kw \<or> str_includes cs kw)"

text \<open>
  The body of the \<open>try\<close> block of lines 130--135, given what \<open>axios.get\<close> did; a
  rejection stands for any exception raised before the response is there. Only an
  array has the method \<open>some\<close>: calling it on any other value with a truthy \<open>length\<close>
  is a TypeError, which the \<open>catch\<close> clause receives like a failed request.
\<close>

definition search_once :: "response awaited \<Rightarrow> string \<Rightarrow> search_status awaited" where
  "search_once got kw =
     (case got of
        Rejects \<Rightarrow> Rejects
      | Resolves res \<Rightarrow>
          if resp_status res \<noteq> 200 \<or> \<not> truthy (resp_data res) \<or> \<not> typeof_object (resp_data res)
          then Resolves Fail
          else
            let list = (case list_prop (resp_data res) of
                          None \<Rightarrow> JArr []
                        | Some v \<Rightarrow> if truthy v then v else JArr [])
            in if \<not> has_length list then Resolves NoResults
               else (case list of
                       JArr items \<Rightarrow>
                         Resolves (if list_ex (\<lambda>item. str_includes (stringify item) kw) items
                                   then Pass else Mismatch)
                     | _ \<Rightarrow> Rejects))"

text \<open>The loop of lines 128--140 from iteration \<open>attempt\<close> on.\<close>

function testSearch_loop :: "(nat \<Rightarrow> response awaited) \<Rightarrow> string \<Rightarrow> nat \<Rightarrow> event list \<Rightarrow> event list \<times> search_status completion" where
  "testSearch_loop get kw attempt trace =
     (if attempt \<le> MAX_RETRY then
        (case search_once (get attempt) kw of
           Resolves s \<Rightarrow> (trace @ [Attempt attempt], Value s)
         | Rejects \<Rightarrow>
             if attempt < MAX_RETRY
             then testSearch_loop get kw (attempt + 1)
                    (trace @ [Attempt attempt, Delay RETRY_DELAY_MS])
             else (trace @ [Attempt attempt], Value Fail))
      else (trace, NoValue))"
  by pat_completeness auto
termination
  by (relation "measure (\<lambda>(get, kw, attempt, trace). MAX_RETRY + 1 - attempt)") auto

declare testSearch_loop.simps [simp del]

definition testSearch :: "(nat \<Rightarrow> response awaited) \<Rightarrow> string \<Rightarrow> event list \<times> search_status completion" where
  "testSearch get kw = testSearch_loop get kw 1 []"

text \<open>
  The events of a run that made \<open>n\<close> attempts under linear backoff: after each attempt
  \<open>k\<close> but the last, a wait of \<open>base * k\<close>.
\<close>

definition linear_backoff :: "nat \<Rightarrow> nat \<Rightarrow> event list" where
  "linear_backoff base n =
     concat (map (\<lambda>k. [Attempt k, Delay (base * k)]) [1..<n]) @ [Attempt n]"

definition attempts :: "event list \<Rightarrow> nat" where
  "attempts trace = length (filter (\<lambda>ev. case ev of Attempt k \<Rightarrow> True | Delay ms \<Rightarrow> False) trace)"

text \<open>
  The number of attempts a retry loop makes when \<open>failed k\<close> tells whether attempt \<open>k\<close>
  fails: it stops at the first attempt that does not fail, and at attempt \<open>MAX_RETRY\<close>
  in any case.
\<close>

definition attempts_made :: "(nat \<Rightarrow> bool) \<Rightarrow> nat" where
  "attempts_made failed =
     (case find (\<lambda>k. \<not> failed k) [1..<MAX_RETRY] of Some k \<Rightarrow> k | None \<Rightarrow> MAX_RETRY)"

text \<open>
  The classification as the specification words it. A structured body is an object or
  an array; the result list holds the entries of the array under the property \<open>list\<close>,
  and is empty when there is no such array.
\<close>

fun is_structured :: "json \<Rightarrow> bool" where
  "is_structured (JArr xs) = True"
| "is_structured (JObj kvs) = True"
| "is_structured v = False"

fun result_entries :: "json \<Rightarrow> json list" where
  "result_entries (JObj kvs) =
     (case map_of kvs ''list'' of Some (JArr items) \<Rightarrow> items | _ \<Rightarrow> [])"
| "result_entries v = []"

definition search_spec :: "response \<Rightarrow> string \<Rightarrow> search_status" where
  "search_spec res kw =
     (if resp_status res \<noteq> 200 \<or> \<not> is_structured (resp_data res) then Fail
      else if result_entries (resp_data res) = [] then NoResults
      else if list_ex (\<lambda>item. str_includes (stringify item) kw) (result_entries (resp_data res))
        then Pass
      else Mismatch)"

text \<open>
  The classification case by case on the value of the property \<open>list\<close>; \<open>None\<close> is the
  case in which the attempt ends like one whose request was rejected.
\<close>

fun list_verdict :: "json option \<Rightarrow> string \<Rightarrow> search_status option" where
  "list_verdict None kw = Some NoResults"
| "list_verdict (Some (JArr [])) kw = Some NoResults"
| "list_verdict (Some (JArr (x # xs))) kw =
     Some (if list_ex (\<lambda>item. str_includes (stringify item) kw) (x # xs) then Pass else Mismatch)"
| "list_verdict (Some (JStr s)) kw = (if s = [] then Some NoResults else None)"
| "list_verdict (Some (JObj kvs)) kw =
     (case map_of kvs ''length'' of
        None \<Rightarrow> Some NoResults
      | Some l \<Rightarrow> if truthy l then None else Some NoResults)"
| "list_verdict (Some v) kw = Some NoResults"

definition search_verdict :: "response \<Rightarrow> string \<Rightarrow> search_status option" where
  "search_verdict res kw =
     (if resp_status res \<noteq> 200 then Some Fail
      else (case resp_data res of
              JArr xs \<Rightarrow> Some NoResults
            | JObj kvs \<Rightarrow> list_verdict (map_of kvs ''list'') kw
            | _ \<Rightarrow> Some Fail))"

section \<open>The bounded queue (lines 144--167)\<close>

text \<open>
  A task is an \<open>async\<close> function (line 185), so calling it yields a promise, and each
  of its awaited requests is bounded by a timeout, so the promise settles; the task is
  given by how that promise settles. \<open>results[i] = res\<close> stores \<open>Res res\<close>, and
  \<open>results[i] = { error: err }\<close> stores \<open>ErrorObj err\<close>.
\<close>

datatype ('e, 'a) settled = Fulfilled 'a | Rejected 'e

datatype ('e, 'a) slot = Res 'a | ErrorObj 'e

definition capture :: "('e, 'a) settled \<Rightarrow> ('e, 'a) slot" where
  "capture out = (case out of Fulfilled res \<Rightarrow> Res res | Rejected err \<Rightarrow> ErrorObj err)"

text \<open>
  A started task is \<open>Running\<close> until its promise settles and the \<open>then\<close> or \<open>catch\<close>
  callback has written \<open>results[i]\<close>; it is \<open>Stored\<close> from then until its \<open>finally\<close>
  callback runs. Callbacks of different tasks interleave in any order, each running to
  its end. \<open>InNext\<close> is control inside a call of \<open>next\<close>, \<open>Idle\<close> control back in the
  event loop.
\<close>

datatype ('e, 'a) stage = Running "('e, 'a) settled" | Stored

datatype control = InNext | Idle

text \<open>
  \<open>results_arr\<close> is the array \<open>results\<close>, \<open>None\<close> being a hole; \<open>resolved\<close> tells whether
  \<open>resolve(results)\<close> has been called, which hands out the array itself, so that the
  caller sees \<open>results_arr\<close> of the state it runs in.
\<close>

record ('e, 'a) queue_state =
  index :: nat
  active :: int
  results_arr :: "('e, 'a) slot option list"
  inflight :: "(nat \<times> ('e, 'a) stage) list"
  resolved :: bool
  pc :: control

text \<open>\<open>xs[i] = v\<close> on an array: writing past the end leaves holes in between.\<close>

definition js_set :: "'a option list \<Rightarrow> nat \<Rightarrow> 'a \<Rightarrow> 'a option list" where
  "js_set xs i v =
     (if i < length xs then xs[i := Some v]
      else xs @ replicate (i - length xs) None @ [Some v])"

definition queue_init :: "('e, 'a) queue_state" where
  "queue_init = \<lparr> index = 0, active = 0, results_arr = [], inflight = [],
                  resolved = False, pc = InNext \<rparr>"

text \<open>
  One turn of the \<open>while\<close> loop of \<open>next\<close> (lines 151--160), or, when its condition
  fails, line 162 and the return to the event loop.
\<close>

definition next_step :: "('e, 'a) settled list \<Rightarrow> int \<Rightarrow> ('e, 'a) queue_state \<Rightarrow> ('e, 'a) queue_state" where
  "next_step tasks limit s =
     (if active s < limit \<and> index s < length tasks
      then s\<lparr> index := index s + 1, active := active s + 1,
              inflight := inflight s @ [(index s, Running (tasks ! index s))] \<rparr>
      else s\<lparr> resolved := (resolved s \<or> (index s \<ge> length tasks \<and> active s = 0)),
              pc := Idle \<rparr>)"

text \<open>
  The event loop runs the next callback of the started task at position
  \<open>k mod length (inflight s)\<close>: lines 154--155 for a running task, lines 156--159 for a
  stored one. With nothing in flight there is no callback left to run.
\<close>

definition event_step :: "nat \<Rightarrow> ('e, 'a) queue_state \<Rightarrow> ('e, 'a) queue_state" where
  "event_step k s =
     (if inflight s = [] then s
      else
        let p = k mod length (inflight s)
        in (case inflight s ! p of
              (i, Running out) \<Rightarrow>
                s\<lparr> results_arr := js_set (results_arr s) i (capture out),
                   inflight := (inflight s)[p := (i, Stored)] \<rparr>
            | (i, Stored) \<Rightarrow>
                s\<lparr> active := active s - 1,
                   inflight := take p (inflight s) @ drop (Suc p) (inflight s),
                   pc := InNext \<rparr>))"

definition queue_step :: "('e, 'a) settled list \<Rightarrow> int \<Rightarrow> ('e, 'a) queue_state \<Rightarrow> nat \<Rightarrow> ('e, 'a) queue_state" where
  "queue_step tasks limit s k =
     (case pc s of InNext \<Rightarrow> next_step tasks limit s | Idle \<Rightarrow> event_step k s)"

text \<open>
  The state after the steps a schedule drives, from the first call of \<open>next\<close> (line
  165) on. Every order in which the callbacks can run is some schedule, and every state
  the queue passes through is the state after some schedule.
\<close>

definition queue_run :: "('e, 'a) settled list \<Rightarrow> int \<Rightarrow> nat list \<Rightarrow> ('e, 'a) queue_state" where
  "queue_run tasks limit sched = foldl (queue_step tasks limit) queue_init sched"

text \<open>What the promise of \<open>queueRun\<close> has resolved with, if it has, after a schedule.\<close>

definition queueRun :: "('e, 'a) settled list \<Rightarrow> int \<Rightarrow> nat list \<Rightarrow> ('e, 'a) slot option list option" where
  "queueRun tasks limit sched =
     (let s = queue_run tasks limit sched
      in if resolved s then Some (results_arr s) else None)"

text \<open>The invariants of the queue, and the number of steps a state still has ahead.\<close>

definition inv_count :: "('e, 'a) settled list \<Rightarrow> int \<Rightarrow> ('e, 'a) queue_state \<Rightarrow> bool" where
  "inv_count tasks limit s \<longleftrightarrow>
     active s = int (length (inflight s)) \<and> active s \<le> limit \<and> index s \<le> length tasks"

definition inv_flight :: "('e, 'a) settled list \<Rightarrow> ('e, 'a) queue_state \<Rightarrow> bool" where
  "inv_flight tasks s \<longleftrightarrow>
     (\<forall>(i, st) \<in> set (inflight s). i < index s \<and> (st = Stored \<or> st = Running (tasks ! i)))"

definition inv_results :: "('e, 'a) settled list \<Rightarrow> ('e, 'a) queue_state \<Rightarrow> bool" where
  "inv_results tasks s \<longleftrightarrow>
     length (results_arr s) \<le> index s
     \<and> (\<forall>i < index s. (i, Running (tasks ! i)) \<notin> set (inflight s) \<longrightarrow>
            i < length (results_arr s) \<and> results_arr s ! i = Some (capture (tasks ! i)))"

definition inv_control :: "('e, 'a) settled list \<Rightarrow> int \<Rightarrow> ('e, 'a) queue_state \<Rightarrow> bool" where
  "inv_control tasks limit s \<longleftrightarrow>
     (pc s = Idle \<longrightarrow> limit \<le> active s \<or> length tasks \<le> index s)
     \<and> (resolved s \<longrightarrow> pc s = Idle \<and> length tasks \<le> index s \<and> active s = 0)
     \<and> (pc s = Idle \<and> length tasks \<le> index s \<and> active s = 0 \<longrightarrow> resolved s)"

definition queue_inv :: "('e, 'a) settled list \<Rightarrow> int \<Rightarrow> ('e, 'a) queue_state \<Rightarrow> bool" where
  "queue_inv tasks limit s \<longleftrightarrow>
     inv_count tasks limit s \<and> inv_flight tasks s \<and> inv_results tasks s
     \<and> inv_control tasks limit s"

fun stage_work :: "nat \<times> ('e, 'a) stage \<Rightarrow> nat" where
  "stage_work (i, Running out) = 3"
| "stage_work (i, Stored) = 2"

definition work_left :: "('e, 'a) settled list \<Rightarrow> ('e, 'a) queue_state \<Rightarrow> nat" where
  "work_left tasks s =
     4 * (length tasks - index s) + sum_list (map stage_work (inflight s))
     + (case pc s of InNext \<Rightarrow> 1 | Idle \<Rightarrow> 0)"

section \<open>The history window\<close>

text \<open>
  Claim C5. Appending today's record to a history that already holds \<open>MAX_DAYS\<close> records
  or more gives a window of exactly \<open>MAX_DAYS\<close> records: today's record behind the newest
  records of the old window without its oldest one. When the old window held exactly
  \<open>MAX_DAYS\<close> records, the new oldest record is the old second-oldest.
\<close>

theorem push_today_evicts_oldest:
  "length history \<ge> MAX_DAYS \<Longrightarrow>
     length (push_today history r) = MAX_DAYS
     \<and> push_today history r = drop (length history - MAX_DAYS) (tl history) @ [r]
     \<and> (length history = MAX_DAYS \<longrightarrow> push_today history r ! 0 = history ! 1)"
proof -
  assume len: "length history \<ge> MAX_DAYS"
  have pos: "0 < MAX_DAYS" "1 < MAX_DAYS" by (simp_all add: MAX_DAYS_def)
  have ne: "history \<noteq> []" using len pos by auto
  have eq: "push_today history r = drop (Suc (length history) - MAX_DAYS) (history @ [r])"
    using len by (simp add: push_today_def slice_last_def Let_def)
  have sub: "Suc (length history) - MAX_DAYS = Suc (length history - MAX_DAYS)"
    using len by simp
  have shape: "push_today history r = drop (length history - MAX_DAYS) (tl history) @ [r]"
    using len ne pos by (simp add: eq sub drop_Suc)
  have l: "length (push_today history r) = MAX_DAYS"
    using len pos by (simp add: eq)
  have first: "push_today history r ! 0 = history ! 1" if "length history = MAX_DAYS"
  proof -
    have "push_today history r = tl history @ [r]" using that shape by simp
    moreover have "0 < length (tl history)" using that pos by simp
    ultimately have "push_today history r ! 0 = tl history ! 0" by (simp add: nth_append)
    also have "\<dots> = history ! 1" using ne by (cases history) auto
    finally show ?thesis .
  qed
  show ?thesis using l shape first by blast
qed

theorem push_today_evicts_oldest_witness:
  "length [0..<30::nat] \<ge> MAX_DAYS \<and> length [0..<30::nat] = MAX_DAYS
   \<and> length (push_today [0..<30] (30::nat)) = MAX_DAYS
   \<and> push_today [0..<30] (30::nat) ! 0 = 1"
proof -
  have h: "length [0..<30::nat] \<ge> MAX_DAYS" by (simp add: MAX_DAYS_def)
  have e: "length [0..<30::nat] = MAX_DAYS" by (simp add: MAX_DAYS_def)
  have "length (push_today [0..<30] (30::nat)) = MAX_DAYS"
    and "push_today [0..<30] (30::nat) ! 0 = [0..<30] ! 1"
    using push_today_evicts_oldest [OF h, of 30] e by blast+
  then show ?thesis using h e by simp
qed

section \<open>The failure streak\<close>

lemma streak_scan_takeWhile:
  "streak_scan a days n = n + length (takeWhile (\<lambda>r. \<not> success r) (List.map_filter (find_rec a) days))"
  by (induction days arbitrary: n) (auto split: option.splits)

lemma map_filter_rev: "List.map_filter f (rev xs) = rev (List.map_filter f xs)"
  by (simp add: List.map_filter_def rev_map rev_filter)

text \<open>
  Claim C2, as the code has it. The streak of an endpoint is the number of failing
  entries at the newest end of its entries, up to its newest success; a record without
  an entry for the endpoint neither counts nor stops the scan.
\<close>

theorem streak_skips_absent:
  "streak a history = length (takeWhile (\<lambda>r. \<not> success r) (rev (entries_of a history)))"
  by (simp add: streak_def entries_of_def streak_scan_takeWhile map_filter_rev)

text \<open>
  Claim C2 as stated, with the scan stopping at a record that lacks an entry, fails: an
  endpoint that failed, was absent from the next record and failed again has streak 2,
  where the stated rule gives 1.
\<close>

theorem streak_stop_at_absent_counterexample:
  "streak ''u''
     [\<lparr>date = ''d1'', keyword = ''k'', results = [\<lparr>name = ''n'', api = ''u'', disabled = False, success = False, latencyMs = Some 10, searchStatus = NotTested\<rparr>]\<rparr>,
      \<lparr>date = ''d2'', keyword = ''k'', results = []\<rparr>,
      \<lparr>date = ''d3'', keyword = ''k'', results = [\<lparr>name = ''n'', api = ''u'', disabled = False, success = False, latencyMs = Some 10, searchStatus = NotTested\<rparr>]\<rparr>]
   = 2
   \<and> streak_spec ''u''
     [\<lparr>date = ''d1'', keyword = ''k'', results = [\<lparr>name = ''n'', api = ''u'', disabled = False, success = False, latencyMs = Some 10, searchStatus = NotTested\<rparr>]\<rparr>,
      \<lparr>date = ''d2'', keyword = ''k'', results = []\<rparr>,
      \<lparr>date = ''d3'', keyword = ''k'', results = [\<lparr>name = ''n'', api = ''u'', disabled = False, success = False, latencyMs = Some 10, searchStatus = NotTested\<rparr>]\<rparr>]
   = 1"
  by (simp add: streak_def streak_spec_def find_rec_def)

section \<open>The reliability tier\<close>

lemma tally_entries:
  "tally a days (k, f, ls) =
     (k + length (filter success (List.map_filter (find_rec a) days)),
      f + length (filter (\<lambda>r. \<not> success r) (List.map_filter (find_rec a) days)),
      ls @ List.map_filter latencyMs (List.map_filter (find_rec a) days))"
  by (induction days arbitrary: k f ls) (auto split: option.splits)

lemma tally_total:
  "tally a history (0, 0, []) = (k, f, ls) \<Longrightarrow> k + f = length (entries_of a history)"
  by (auto simp: tally_entries entries_of_def sum_length_filter_compl)

lemma success_rate_None: "success_rate k f = None \<longleftrightarrow> k + f = 0"
  by (simp add: success_rate_def Let_def)

text \<open>
  Claim C3, as the code has it. When the success rate is computable, which is when some
  record holds an entry for the endpoint, the tier is High for a rate of at least 90
  with an average latency below 2500, else Medium for a rate of at least 70 with an
  average latency below 5000, else Low; a missing average counts as infinite. With no
  entry at all the rate is not computable and the tier keeps its initial value "-".
\<close>

theorem reliable_tier_of_stats:
  "(case successRate (stats_entry e history today) of
      None \<Rightarrow>
        reliable (stats_entry e history today) = NoTier \<and> entries_of (api e) history = []
    | Some r \<Rightarrow>
        reliable (stats_entry e history today) =
          (if r \<ge> 90 \<and> avg_below (latencyAvgMs (stats_entry e history today)) 2500 then High
           else if r \<ge> 70 \<and> avg_below (latencyAvgMs (stats_entry e history today)) 5000 then Medium
           else Low)
        \<and> entries_of (api e) history \<noteq> [])"
proof -
  obtain k f ls where t: "tally (api e) history (0, 0, []) = (k, f, ls)"
    by (cases "tally (api e) history (0, 0, [])") auto
  have n: "k + f = length (entries_of (api e) history)" using t by (rule tally_total)
  show ?thesis
  proof (cases "success_rate k f")
    case None
    then have "k + f = 0" by (simp add: success_rate_None)
    with n None t show ?thesis by (simp add: stats_entry_def Let_def reliable_tier_def)
  next
    case (Some r)
    then have "k + f \<noteq> 0" using success_rate_None [of k f] by auto
    with n Some t show ?thesis by (auto simp add: stats_entry_def Let_def reliable_tier_def)
  qed
qed

text \<open>
  Claim C3 as stated makes the tier Low when there are no samples; for an endpoint that
  no record mentions the tier is not Low.
\<close>

theorem zero_samples_low_counterexample:
  "reliable (stats_entry \<lparr>name = ''n'', api = ''u'', disabled = False, detail = ''-''\<rparr>
      [\<lparr>date = ''d1'', keyword = ''k'', results = []\<rparr>] []) \<noteq> Low"
  by (simp add: stats_entry_def find_rec_def success_rate_def reliable_tier_def Let_def)

section \<open>The reliable subset\<close>

lemma stats_table_snoc:
  "stats_table (es @ [e]) h t = (stats_table es h t)(api e \<mapsto> stats_entry e h t)"
  by (simp add: stats_table_def)

lemma stats_table_lookup:
  "distinct (map api es) \<Longrightarrow> e \<in> set es \<Longrightarrow> stats_table es h t (api e) = Some (stats_entry e h t)"
proof (induction es rule: rev_induct)
  case Nil
  then show ?case by simp
next
  case (snoc x xs)
  show ?case
  proof (cases "e = x")
    case True
    then show ?thesis by (simp add: stats_table_snoc)
  next
    case False
    with snoc.prems have mem: "e \<in> set xs" and d: "distinct (map api xs)" and "api x \<notin> api ` set xs"
      by auto
    then have "api e \<noteq> api x" by (metis image_eqI)
    then show ?thesis using snoc.IH [OF d mem] by (simp add: stats_table_snoc)
  qed
qed

lemma api_to_endpoint: "api (to_endpoint s) = api s"
  by (simp add: to_endpoint_def)

lemma disabled_to_endpoint: "disabled (to_endpoint s) = disabled s"
  by (simp add: to_endpoint_def)

lemma status_stats_entry:
  "status (stats_entry e h t) = status_of (disabled e) (streak (api e) h) (find (\<lambda>x. api x = api e) t)"
  by (simp add: stats_entry_def Let_def split: prod.splits)

text \<open>
  In a configuration whose sites have distinct \<open>api\<close> values, a disabled site gets the
  disabled status symbol, whatever its streak, and under every key but \<open>__proto__\<close> it
  is copied into the reliable subset as soon as its success rate is at least 90.
\<close>

lemma disabled_site_kept:
  assumes uniq: "distinct (map (api \<circ> snd) entries)"
    and mem: "(key, val) \<in> set entries"
    and key: "key \<noteq> ''__proto__''"
    and dis: "disabled val"
    and rate: "successRate (stats_entry (to_endpoint val) (push_today history todayRecord) (results todayRecord)) = Some rate"
    and high: "rate \<ge> 90"
  shows "status (stats_entry (to_endpoint val) (push_today history todayRecord) (results todayRecord)) = StatusDisabled
       \<and> (key, val) \<in> set (aggregate_run entries history todayRecord)"
proof -
  let ?h = "push_today history todayRecord"
  let ?t = "results todayRecord"
  let ?es = "map (to_endpoint \<circ> snd) entries"
  have st: "status (stats_entry (to_endpoint val) ?h ?t) = StatusDisabled"
    using dis by (simp add: status_stats_entry disabled_to_endpoint status_of_def)
  have "map api ?es = map (api \<circ> snd) entries"
    by (simp add: api_to_endpoint comp_def)
  then have d: "distinct (map api ?es)" using uniq by (simp only:)
  have m: "to_endpoint val \<in> set ?es" using mem by force
  have "stats_table ?es ?h ?t (api val) = Some (stats_entry (to_endpoint val) ?h ?t)"
    using stats_table_lookup [OF d m] by (simp add: api_to_endpoint)
  then have "is_reliable (stats_table ?es ?h ?t) val"
    using rate high st by (simp add: is_reliable_def)
  then show ?thesis using st mem key by (simp add: aggregate_run_def reliable_sites_def Let_def)
qed

text \<open>
  An instance: 27 successful days, two failed ones, and today, when the site is
  disabled. The rate is 90, the streak 3, and the site under the key \<open>site\<close> is kept.
\<close>

lemma disabled_site_kept_example:
  "(let v = \<lparr>name = ''n'', api = ''u'', disabled = True, detail_field = None\<rparr>;
        E = [(''site'', v)];
        day = (\<lambda>b. \<lparr>date = ''d'', keyword = ''k'',
                 results = [\<lparr>name = ''n'', api = ''u'', disabled = False, success = b,
                             latencyMs = Some 100, searchStatus = NotTested\<rparr>]\<rparr>);
        H = replicate 27 (day True) @ replicate 2 (day False);
        T = \<lparr>date = ''d'', keyword = ''k'',
              results = [\<lparr>name = ''n'', api = ''u'', disabled = True, success = False,
                          latencyMs = None, searchStatus = Skipped\<rparr>]\<rparr>
    in WARN_STREAK \<le> streak (api v) (push_today H T)
       \<and> status (stats_entry (to_endpoint v) (push_today H T) (results T)) = StatusDisabled
       \<and> (''site'', v) \<in> set (aggregate_run E H T))"
proof -
  define v :: config_site where "v = \<lparr>name = ''n'', api = ''u'', disabled = True, detail_field = None\<rparr>"
  define day :: "bool \<Rightarrow> run_record" where
    "day = (\<lambda>b. \<lparr>date = ''d'', keyword = ''k'',
                 results = [\<lparr>name = ''n'', api = ''u'', disabled = False, success = b,
                             latencyMs = Some 100, searchStatus = NotTested\<rparr>]\<rparr>)"
  define H where "H = replicate 27 (day True) @ replicate 2 (day False)"
  define T :: run_record where
    "T = \<lparr>date = ''d'', keyword = ''k'',
          results = [\<lparr>name = ''n'', api = ''u'', disabled = True, success = False,
                      latencyMs = None, searchStatus = Skipped\<rparr>]\<rparr>"
  have u: "distinct (map (api \<circ> snd) [(''site'', v)])" by simp
  have m: "(''site'', v) \<in> set [(''site'', v)]" by simp
  have k: "''site'' \<noteq> ''__proto__''" by simp
  have d: "disabled v" by (simp add: v_def)
  have r: "successRate (stats_entry (to_endpoint v) (push_today H T) (results T)) = Some 90"
    unfolding v_def H_def T_def day_def by code_simp
  have s: "WARN_STREAK \<le> streak (api v) (push_today H T)"
    unfolding v_def H_def T_def day_def by code_simp
  have "status (stats_entry (to_endpoint v) (push_today H T) (results T)) = StatusDisabled
      \<and> (''site'', v) \<in> set (aggregate_run [(''site'', v)] H T)"
    using disabled_site_kept [OF u m k d r] by simp
  then show ?thesis
    using s unfolding Let_def v_def H_def T_def day_def by blast
qed

lemma proto_key_never_kept: "(''__proto__'', val) \<notin> set (aggregate_run entries history todayRecord)"
  by (simp add: aggregate_run_def reliable_sites_def Let_def)

text \<open>
  Claim C9. A disabled site whose success rate is at least 90 belongs in the reliable
  subset even when its streak has reached \<open>WARN_STREAK\<close>: the disabled status symbol
  takes precedence over the alert symbol. The script fails this for a site configured
  under the key \<open>__proto__\<close>: after 27 successful days, two failed ones and today's
  disabled entry, the rate is 90, the streak 3 and the status the disabled symbol, yet
  the reliable subset is empty.
\<close>

theorem proto_key_site_dropped:
  "(let v = \<lparr>name = ''n'', api = ''u'', disabled = True, detail_field = None\<rparr>;
        E = [(''__proto__'', v)];
        day = (\<lambda>b. \<lparr>date = ''d'', keyword = ''k'',
                 results = [\<lparr>name = ''n'', api = ''u'', disabled = False, success = b,
                             latencyMs = Some 100, searchStatus = NotTested\<rparr>]\<rparr>);
        H = replicate 27 (day True) @ replicate 2 (day False);
        T = \<lparr>date = ''d'', keyword = ''k'',
              results = [\<lparr>name = ''n'', api = ''u'', disabled = True, success = False,
                          latencyMs = None, searchStatus = Skipped\<rparr>]\<rparr>
    in disabled v
       \<and> successRate (stats_entry (to_endpoint v) (push_today H T) (results T)) = Some 90
       \<and> WARN_STREAK \<le> streak (api v) (push_today H T)
       \<and> status (stats_entry (to_endpoint v) (push_today H T) (results T)) = StatusDisabled
       \<and> aggregate_run E H T = [])"
proof -
  define v :: config_site where "v = \<lparr>name = ''n'', api = ''u'', disabled = True, detail_field = None\<rparr>"
  define day :: "bool \<Rightarrow> run_record" where
    "day = (\<lambda>b. \<lparr>date = ''d'', keyword = ''k'',
                 results = [\<lparr>name = ''n'', api = ''u'', disabled = False, success = b,
                             latencyMs = Some 100, searchStatus = NotTested\<rparr>]\<rparr>)"
  define H where "H = replicate 27 (day True) @ replicate 2 (day False)"
  define T :: run_record where
    "T = \<lparr>date = ''d'', keyword = ''k'',
          results = [\<lparr>name = ''n'', api = ''u'', disabled = True, success = False,
                      latencyMs = None, searchStatus = Skipped\<rparr>]\<rparr>"
  have d: "disabled v" by (simp add: v_def)
  have r: "successRate (stats_entry (to_endpoint v) (push_today H T) (results T)) = Some 90"
    unfolding v_def H_def T_def day_def by code_simp
  have s: "WARN_STREAK \<le> streak (api v) (push_today H T)"
    unfolding v_def H_def T_def day_def by code_simp
  have st: "status (stats_entry (to_endpoint v) (push_today H T) (results T)) = StatusDisabled"
    using d by (simp add: status_stats_entry disabled_to_endpoint status_of_def)
  have e: "aggregate_run [(''__proto__'', v)] H T = []"
    by (simp add: aggregate_run_def reliable_sites_def Let_def)
  show ?thesis
    using d r s st e unfolding Let_def v_def H_def T_def day_def by blast
qed

section \<open>Retries\<close>

lemma linear_backoff_1: "linear_backoff b (Suc 0) = [Attempt (Suc 0)]"
  by (simp add: linear_backoff_def)

lemma linear_backoff_2:
  "linear_backoff b (Suc (Suc 0)) = [Attempt (Suc 0), Delay b, Attempt (Suc (Suc 0))]"
  by (simp add: linear_backoff_def)

lemma safeGet_cases:
  "safeGet io =
     (case probe_once (io 1) of
        Resolves r \<Rightarrow> ([Attempt 1], Value r)
      | Rejects \<Rightarrow>
          (case probe_once (io 2) of
             Resolves r \<Rightarrow> ([Attempt 1, Delay RETRY_DELAY_MS, Attempt 2], Value r)
           | Rejects \<Rightarrow> ([Attempt 1, Delay RETRY_DELAY_MS, Attempt 2], Value (False, elapsed (io 2)))))"
proof -
  have two: "safeGet_loop io 2 tr =
      (case probe_once (io 2) of
         Resolves r \<Rightarrow> (tr @ [Attempt 2], Value r)
       | Rejects \<Rightarrow> (tr @ [Attempt 2], Value (False, elapsed (io 2))))" for tr
    by (subst safeGet_loop.simps) (simp add: MAX_RETRY_def numeral_2_eq_2 split: awaited.splits)
  have one: "safeGet_loop io 1 [] =
      (case probe_once (io 1) of
         Resolves r \<Rightarrow> ([Attempt 1], Value r)
       | Rejects \<Rightarrow> safeGet_loop io 2 [Attempt 1, Delay RETRY_DELAY_MS])"
    by (subst safeGet_loop.simps) (simp add: MAX_RETRY_def numeral_2_eq_2 split: awaited.splits)
  show ?thesis
    unfolding safeGet_def one two by (simp split: awaited.splits)
qed

lemma testSearch_cases:
  "testSearch get kw =
     (case search_once (get 1) kw of
        Resolves r \<Rightarrow> ([Attempt 1], Value r)
      | Rejects \<Rightarrow>
          (case search_once (get 2) kw of
             Resolves r \<Rightarrow> ([Attempt 1, Delay RETRY_DELAY_MS, Attempt 2], Value r)
           | Rejects \<Rightarrow> ([Attempt 1, Delay RETRY_DELAY_MS, Attempt 2], Value Fail)))"
proof -
  have two: "testSearch_loop get kw 2 tr =
      (case search_once (get 2) kw of
         Resolves r \<Rightarrow> (tr @ [Attempt 2], Value r)
       | Rejects \<Rightarrow> (tr @ [Attempt 2], Value Fail))" for tr
    by (subst testSearch_loop.simps) (simp add: MAX_RETRY_def numeral_2_eq_2 split: awaited.splits)
  have one: "testSearch_loop get kw 1 [] =
      (case search_once (get 1) kw of
         Resolves r \<Rightarrow> ([Attempt 1], Value r)
       | Rejects \<Rightarrow> testSearch_loop get kw 2 [Attempt 1, Delay RETRY_DELAY_MS])"
    by (subst testSearch_loop.simps) (simp add: MAX_RETRY_def numeral_2_eq_2 split: awaited.splits)
  show ?thesis
    unfolding testSearch_def one two by (simp split: awaited.splits)
qed

lemma attempts_made_cases:
  "attempts_made failed = (if failed (Suc 0) then Suc (Suc 0) else Suc 0)"
  by (simp add: attempts_made_def MAX_RETRY_def numeral_2_eq_2)

text \<open>
  Claim C4. In every run of \<open>safeGet\<close> and in every run of \<open>testSearch\<close>, whatever the
  network does, the events are exactly those of linear backoff with base
  \<open>RETRY_DELAY_MS\<close> over the attempts the outcomes call for: each failed attempt \<open>k\<close>
  before the last is followed by a wait of \<open>RETRY_DELAY_MS * k\<close> and by attempt \<open>k + 1\<close>,
  and nothing follows the last attempt. (\<open>testSearch\<close> waits \<open>RETRY_DELAY_MS\<close> whatever
  the attempt; as \<open>MAX_RETRY\<close> is 2, its only wait follows attempt 1.)
\<close>

theorem backoff_linear_in_both:
  "fst (safeGet io) =
     linear_backoff RETRY_DELAY_MS (attempts_made (\<lambda>k. probe_once (io k) = Rejects))
   \<and> fst (testSearch get kw) =
     linear_backoff RETRY_DELAY_MS (attempts_made (\<lambda>k. search_once (get k) kw = Rejects))"
  by (simp add: safeGet_cases testSearch_cases attempts_made_cases linear_backoff_1
      linear_backoff_2 numeral_2_eq_2 split: awaited.splits)

text \<open>
  The witness: in both functions the first attempt fails and the second succeeds, with
  one wait of \<open>RETRY_DELAY_MS * 1\<close> in between.
\<close>

theorem backoff_linear_in_both_witness:
  "fst (safeGet (\<lambda>k. \<lparr>head_res = (if k = 1 then Rejects else Resolves 200),
                       stream_res = Rejects, elapsed = 120\<rparr>))
     = [Attempt 1, Delay (RETRY_DELAY_MS * 1), Attempt 2]
   \<and> fst (testSearch (\<lambda>k. if k = 1 then Rejects
                           else Resolves \<lparr>resp_status = 200, resp_data = JObj []\<rparr>) ''abc'')
     = [Attempt 1, Delay (RETRY_DELAY_MS * 1), Attempt 2]"
proof -
  let ?io = "\<lambda>k::nat. \<lparr>head_res = (if k = 1 then Rejects else Resolves 200),
                       stream_res = Rejects, elapsed = 120\<rparr>"
  let ?get = "\<lambda>k::nat. if k = 1 then Rejects
                           else Resolves \<lparr>resp_status = 200, resp_data = JObj []\<rparr>"
  have a: "attempts_made (\<lambda>k. probe_once (?io k) = Rejects) = 2"
    by (simp add: attempts_made_cases probe_once_def)
  have b: "attempts_made (\<lambda>k. search_once (?get k) ''abc'' = Rejects) = 2"
    by (simp add: attempts_made_cases search_once_def)
  have c: "linear_backoff RETRY_DELAY_MS 2 = [Attempt 1, Delay (RETRY_DELAY_MS * 1), Attempt 2]"
    by (simp add: linear_backoff_2 numeral_2_eq_2)
  show ?thesis
    using backoff_linear_in_both [of ?io ?get "''abc''"] by (simp only: a b c)
qed

text \<open>
  Claim C6. When every attempt fails, \<open>safeGet\<close> returns the failure outcome with the
  elapsed time of the last attempt and \<open>testSearch\<close> returns \<open>Fail\<close>, each after
  exactly \<open>MAX_RETRY\<close> attempts; and neither ever raises.
\<close>

theorem retry_exhaustion:
  "((\<forall>k. 1 \<le> k \<and> k \<le> MAX_RETRY \<longrightarrow> probe_once (io k) = Rejects) \<longrightarrow>
      snd (safeGet io) = Value (False, elapsed (io MAX_RETRY))
      \<and> attempts (fst (safeGet io)) = MAX_RETRY)
   \<and> ((\<forall>k. 1 \<le> k \<and> k \<le> MAX_RETRY \<longrightarrow> search_once (get k) kw = Rejects) \<longrightarrow>
      snd (testSearch get kw) = Value Fail
      \<and> attempts (fst (testSearch get kw)) = MAX_RETRY)
   \<and> snd (safeGet io) \<noteq> Raise \<and> snd (testSearch get kw) \<noteq> Raise"
proof -
  have a: "snd (safeGet io) = Value (False, elapsed (io MAX_RETRY)) \<and> attempts (fst (safeGet io)) = MAX_RETRY"
    if "\<forall>k. 1 \<le> k \<and> k \<le> MAX_RETRY \<longrightarrow> probe_once (io k) = Rejects"
  proof -
    from that have "probe_once (io 1) = Rejects" "probe_once (io 2) = Rejects"
      by (simp_all add: MAX_RETRY_def)
    then show ?thesis by (simp add: safeGet_cases attempts_def MAX_RETRY_def)
  qed
  have b: "snd (testSearch get kw) = Value Fail \<and> attempts (fst (testSearch get kw)) = MAX_RETRY"
    if "\<forall>k. 1 \<le> k \<and> k \<le> MAX_RETRY \<longrightarrow> search_once (get k) kw = Rejects"
  proof -
    from that have "search_once (get 1) kw = Rejects" "search_once (get 2) kw = Rejects"
      by (simp_all add: MAX_RETRY_def)
    then show ?thesis by (simp add: testSearch_cases attempts_def MAX_RETRY_def)
  qed
  have c: "snd (safeGet io) \<noteq> Raise"
    by (simp add: safeGet_cases split: awaited.splits)
  have d: "snd (testSearch get kw) \<noteq> Raise"
    by (simp add: testSearch_cases split: awaited.splits)
  show ?thesis using a b c d by blast
qed

text \<open>The witness: every request of both attempts is refused.\<close>

theorem retry_exhaustion_witness:
  "probe_once \<lparr>head_res = Rejects, stream_res = Rejects, elapsed = 8001\<rparr> = Rejects
   \<and> probe_once \<lparr>head_res = Rejects, stream_res = Rejects, elapsed = 8002\<rparr> = Rejects
   \<and> search_once Rejects ''abc'' = Rejects
   \<and> snd (safeGet (\<lambda>k. \<lparr>head_res = Rejects, stream_res = Rejects, elapsed = 8000 + int k\<rparr>)) = Value (False, 8002)
   \<and> attempts (fst (safeGet (\<lambda>k. \<lparr>head_res = Rejects, stream_res = Rejects, elapsed = 8000 + int k\<rparr>))) = 2
   \<and> snd (testSearch (\<lambda>k. Rejects) ''abc'') = Value Fail
   \<and> attempts (fst (testSearch (\<lambda>k. Rejects) ''abc'')) = 2"
proof -
  have p: "\<forall>k. 1 \<le> k \<and> k \<le> MAX_RETRY \<longrightarrow>
        probe_once ((\<lambda>k. \<lparr>head_res = Rejects, stream_res = Rejects, elapsed = 8000 + int k\<rparr>) k) = Rejects"
    by (simp add: probe_once_def)
  have s: "\<forall>k. 1 \<le> k \<and> k \<le> MAX_RETRY \<longrightarrow> search_once ((\<lambda>k. Rejects) k) ''abc'' = Rejects"
    by (simp add: search_once_def)
  have "snd (safeGet (\<lambda>k. \<lparr>head_res = Rejects, stream_res = Rejects, elapsed = 8000 + int k\<rparr>)) = Value (False, 8002)
      \<and> attempts (fst (safeGet (\<lambda>k. \<lparr>head_res = Rejects, stream_res = Rejects, elapsed = 8000 + int k\<rparr>))) = 2
      \<and> snd (testSearch (\<lambda>k. Rejects) ''abc'') = Value Fail
      \<and> attempts (fst (testSearch (\<lambda>k. Rejects) ''abc'')) = 2"
    using p s retry_exhaustion [of "\<lambda>k. \<lparr>head_res = Rejects, stream_res = Rejects, elapsed = 8000 + int k\<rparr>"
        "\<lambda>k. Rejects" "''abc''"]
    by (simp add: MAX_RETRY_def)
  then show ?thesis by (simp add: probe_once_def search_once_def)
qed

section \<open>Search validation\<close>

lemma str_includes_iff: "str_includes s kw \<longleftrightarrow> (\<exists>p q. s = p @ kw @ q)"
proof (induction s)
  case Nil
  then show ?case by auto
next
  case (Cons c cs)
  have "(\<exists>p q. c # cs = p @ kw @ q) \<longleftrightarrow> (\<exists>q. c # cs = kw @ q) \<or> (\<exists>p q. cs = p @ kw @ q)"
  proof
    assume "\<exists>p q. c # cs = p @ kw @ q"
    then obtain p q where e: "c # cs = p @ kw @ q" by blast
    show "(\<exists>q. c # cs = kw @ q) \<or> (\<exists>p q. cs = p @ kw @ q)"
    proof (cases p)
      case Nil
      with e show ?thesis by auto
    next
      case (Cons a p')
      with e have "cs = p' @ kw @ q" by simp
      then show ?thesis by blast
    qed
  next
    assume "(\<exists>q. c # cs = kw @ q) \<or> (\<exists>p q. cs = p @ kw @ q)"
    then show "\<exists>p q. c # cs = p @ kw @ q"
    proof
      assume "\<exists>q. c # cs = kw @ q"
      then obtain q where "c # cs = [] @ kw @ q" by auto
      then show ?thesis by blast
    next
      assume "\<exists>p q. cs = p @ kw @ q"
      then obtain p q where "c # cs = (c # p) @ kw @ q" by auto
      then show ?thesis by blast
    qed
  qed
  moreover have "(\<exists>q. c # cs = kw @ q) \<longleftrightarrow> take (length kw) (c # cs) = kw"
    by (metis append_eq_conv_conj append_take_drop_id)
  ultimately show ?case using Cons.IH by simp
qed

lemma search_once_verdict:
  "search_once (Resolves res) kw =
     (case search_verdict res kw of Some s \<Rightarrow> Resolves s | None \<Rightarrow> Rejects)"
proof (cases "resp_data res")
  case (JObj kvs)
  show ?thesis
  proof (cases "map_of kvs ''list''")
    case None
    with JObj show ?thesis by (simp add: search_once_def search_verdict_def)
  next
    case (Some v)
    show ?thesis
    proof (cases v)
      case (JArr items)
      with JObj Some show ?thesis
        by (cases items) (simp_all add: search_once_def search_verdict_def)
    next
      case (JObj fields)
      with \<open>resp_data res = JObj kvs\<close> Some show ?thesis
        by (simp add: search_once_def search_verdict_def split: option.splits)
    qed (use JObj Some in \<open>simp_all add: search_once_def search_verdict_def\<close>)
  qed
qed (simp_all add: search_once_def search_verdict_def)

text \<open>
  Claim C7, as the code has it. A response that \<open>axios.get\<close> hands over is classified
  \<open>Fail\<close> when its status is not 200 or its body is not structured. Otherwise it is
  \<open>NoResults\<close> when the body is an array or when its property \<open>list\<close> is missing,
  falsy, an empty array, a number, \<open>true\<close> or an object without a truthy \<open>length\<close>;
  \<open>Pass\<close> when \<open>list\<close> is a non-empty array with an entry whose serialized form
  contains the keyword, \<open>Mismatch\<close> when it is a non-empty array without such an entry.
  When \<open>list\<close> is a non-empty string or an object with a truthy \<open>length\<close>, the attempt
  ends as if its request had been rejected: it is retried, and \<open>Fail\<close> is the result
  when it was the last attempt. The response of the first attempt decides in this way,
  and so does the response of the second attempt after a failed first one.
\<close>

theorem search_classification:
  "(get 1 = Resolves res \<longrightarrow>
      snd (testSearch get kw) =
        (case search_verdict res kw of
           Some s \<Rightarrow> Value s
         | None \<Rightarrow> snd (testSearch (get(1 := Rejects)) kw)))
   \<and> (search_once (get 1) kw = Rejects \<and> get 2 = Resolves res \<longrightarrow>
      snd (testSearch get kw) =
        Value (case search_verdict res kw of Some s \<Rightarrow> s | None \<Rightarrow> Fail))"
proof -
  have one: "snd (testSearch get kw) =
        (case search_verdict res kw of
           Some s \<Rightarrow> Value s
         | None \<Rightarrow> snd (testSearch (get(1 := Rejects)) kw))"
    if g: "get 1 = Resolves res"
  proof -
    have first: "search_once (get 1) kw =
        (case search_verdict res kw of Some s \<Rightarrow> Resolves s | None \<Rightarrow> Rejects)"
      using g by (simp only: search_once_verdict)
    have rej: "search_once ((get(1 := Rejects)) 1) kw = Rejects"
      by (simp add: search_once_def)
    have snd: "search_once ((get(1 := Rejects)) 2) kw = search_once (get 2) kw"
      by simp
    show ?thesis
    proof (cases "search_verdict res kw")
      case (Some s)
      with first show ?thesis by (simp add: testSearch_cases)
    next
      case None
      with first have "search_once (get 1) kw = Rejects" by simp
      then have "testSearch get kw = testSearch (get(1 := Rejects)) kw"
        unfolding testSearch_cases [of get] testSearch_cases [of "get(1 := Rejects)"] rej snd
        by simp
      with None show ?thesis by simp
    qed
  qed
  have two: "snd (testSearch get kw) =
        Value (case search_verdict res kw of Some s \<Rightarrow> s | None \<Rightarrow> Fail)"
    if r: "search_once (get 1) kw = Rejects" and g: "get 2 = Resolves res"
  proof -
    have "search_once (get 2) kw =
        (case search_verdict res kw of Some s \<Rightarrow> Resolves s | None \<Rightarrow> Rejects)"
      using g by (simp only: search_once_verdict)
    with r show ?thesis by (simp add: testSearch_cases split: option.splits)
  qed
  show ?thesis using one two by blast
qed

text \<open>
  The witness: a response whose second entry contains \<open>abc\<close> passes at the first
  attempt; after a rejected first request, the same response at the second attempt is a
  mismatch for \<open>xyz\<close>.
\<close>

theorem search_classification_witness:
  "(let res = \<lparr>resp_status = 200,
                resp_data = JObj [(''code'', JNum ''1''),
                                  (''list'', JArr [JObj [(''title'', JStr ''other'')],
                                                   JObj [(''title'', JStr ''abc''), (''id'', JNum ''7'')]])]\<rparr>;
        get = (\<lambda>k::nat. if k = 1 then Rejects else Resolves res)
    in search_verdict res ''abc'' = Some Pass
       \<and> search_verdict res ''xyz'' = Some Mismatch
       \<and> snd (testSearch (\<lambda>k. Resolves res) ''abc'') = Value Pass
       \<and> search_once (get 1) ''xyz'' = Rejects \<and> get 2 = Resolves res
       \<and> snd (testSearch get ''xyz'') = Value Mismatch)"
proof -
  define res where "res = \<lparr>resp_status = 200,
                resp_data = JObj [(''code'', JNum ''1''),
                                  (''list'', JArr [JObj [(''title'', JStr ''other'')],
                                                   JObj [(''title'', JStr ''abc''), (''id'', JNum ''7'')]])]\<rparr>"
  define get where "get = (\<lambda>k::nat. if k = 1 then Rejects else Resolves res)"
  have g1: "(\<lambda>k. Resolves res) (1::nat) = Resolves res" by simp
  have v1: "search_verdict res ''abc'' = Some Pass"
    unfolding res_def by code_simp
  have v2: "search_verdict res ''xyz'' = Some Mismatch"
    unfolding res_def by code_simp
  have r: "search_once (get 1) ''xyz'' = Rejects" by (simp add: get_def search_once_def)
  have g2: "get 2 = Resolves res" by (simp add: get_def)
  have a: "snd (testSearch (\<lambda>k. Resolves res) ''abc'') = Value Pass"
    using search_classification [of "\<lambda>k. Resolves res" res "''abc''"] g1 v1 by simp
  have b: "snd (testSearch get ''xyz'') = Value Mismatch"
    using search_classification [of get res "''xyz''"] r g2 v2 by simp
  show ?thesis
    using v1 v2 a r g2 b unfolding Let_def res_def get_def by blast
qed

text \<open>
  Claim C7 as stated leaves only \<open>NoResults\<close>, \<open>Pass\<close> and \<open>Mismatch\<close> to a response
  with status 200 and a structured body. The body \<open>{"list": "abc"}\<close> has status 200 and
  is structured, and the validator returns \<open>Fail\<close> for it.
\<close>

theorem non_array_list_counterexample:
  "resp_status \<lparr>resp_status = 200, resp_data = JObj [(''list'', JStr ''abc'')]\<rparr> = 200
   \<and> is_structured (resp_data \<lparr>resp_status = 200, resp_data = JObj [(''list'', JStr ''abc'')]\<rparr>)
   \<and> snd (testSearch (\<lambda>k. Resolves \<lparr>resp_status = 200, resp_data = JObj [(''list'', JStr ''abc'')]\<rparr>) ''abc'')
       = Value Fail
   \<and> search_spec \<lparr>resp_status = 200, resp_data = JObj [(''list'', JStr ''abc'')]\<rparr> ''abc'' = NoResults"
  by (simp add: testSearch_cases search_once_def search_spec_def)

text \<open>
  Claim C10. A response with status 200 whose body is an object without a property
  \<open>list\<close> is classified \<open>NoResults\<close>.
\<close>

theorem missing_list_no_results:
  assumes "get 1 = Resolves res"
    and "resp_status res = 200"
    and "resp_data res = JObj kvs"
    and "map_of kvs ''list'' = None"
  shows "snd (testSearch get kw) = Value NoResults"
  using assms by (simp add: testSearch_cases search_once_def)

theorem missing_list_no_results_witness:
  "(\<lambda>k. Resolves \<lparr>resp_status = 200, resp_data = JObj [(''code'', JNum ''1''), (''msg'', JStr ''ok'')]\<rparr>) 1
     = Resolves \<lparr>resp_status = 200, resp_data = JObj [(''code'', JNum ''1''), (''msg'', JStr ''ok'')]\<rparr>
   \<and> resp_status \<lparr>resp_status = 200, resp_data = JObj [(''code'', JNum ''1''), (''msg'', JStr ''ok'')]\<rparr> = 200
   \<and> map_of [(''code'', JNum ''1''), (''msg'', JStr ''ok'')] ''list'' = None
   \<and> snd (testSearch (\<lambda>k. Resolves \<lparr>resp_status = 200, resp_data = JObj [(''code'', JNum ''1''), (''msg'', JStr ''ok'')]\<rparr>) ''abc'')
       = Value NoResults"
  using missing_list_no_results
    [of "\<lambda>k. Resolves \<lparr>resp_status = 200, resp_data = JObj [(''code'', JNum ''1''), (''msg'', JStr ''ok'')]\<rparr>"
        "\<lparr>resp_status = 200, resp_data = JObj [(''code'', JNum ''1''), (''msg'', JStr ''ok'')]\<rparr>"
        "[(''code'', JNum ''1''), (''msg'', JStr ''ok'')]" "''abc''"]
  by simp

section \<open>The bounded queue\<close>

subsection \<open>Arrays and lists\<close>

lemma js_set_length: "length (js_set xs i v) = max (length xs) (Suc i)"
  by (auto simp: js_set_def)

lemma js_set_same: "js_set xs i v ! i = Some v"
  by (simp add: js_set_def nth_append)

lemma js_set_other: "j \<noteq> i \<Longrightarrow> j < length xs \<Longrightarrow> js_set xs i v ! j = xs ! j"
  by (simp add: js_set_def nth_append)

lemma in_set_update_other: "x \<in> set xs \<Longrightarrow> x \<noteq> xs ! p \<Longrightarrow> x \<in> set (xs[p := y])"
proof -
  assume "x \<in> set xs" and ne: "x \<noteq> xs ! p"
  then obtain q where q: "q < length xs" "xs ! q = x" by (auto simp: in_set_conv_nth)
  with ne have "q \<noteq> p" by auto
  with q have "q < length (xs[p := y])" "xs[p := y] ! q = x" by simp_all
  then show ?thesis by (metis nth_mem)
qed

lemma remove_nth_split: "p < length xs \<Longrightarrow> xs = take p xs @ xs ! p # drop (Suc p) xs"
  by (rule id_take_nth_drop)

lemma in_set_remove_other:
  assumes "x \<in> set xs" and "x \<noteq> xs ! p" and "p < length xs"
  shows "x \<in> set (take p xs @ drop (Suc p) xs)"
proof -
  have "set xs = set (take p xs @ xs ! p # drop (Suc p) xs)"
    using remove_nth_split [OF assms(3)] by simp
  with assms(1,2) show ?thesis by auto
qed

lemma set_remove_subset: "set (take p xs @ drop (Suc p) xs) \<subseteq> set xs"
  using set_take_subset [of p xs] set_drop_subset [of "Suc p" xs] by auto

lemma length_remove: "p < length xs \<Longrightarrow> length (take p xs @ drop (Suc p) xs) = length xs - 1"
  by simp

lemma sum_list_remove:
  assumes "p < length xs"
  shows "sum_list (map f (take p xs @ drop (Suc p) xs)) + f (xs ! p) = sum_list (map (f :: 'a \<Rightarrow> nat) xs)"
proof -
  have "sum_list (map f xs) = sum_list (map f (take p xs @ xs ! p # drop (Suc p) xs))"
    using remove_nth_split [OF assms] by simp
  then show ?thesis by simp
qed

lemma sum_list_update:
  assumes "p < length xs"
  shows "sum_list (map f (xs[p := y])) + f (xs ! p) = sum_list (map (f :: 'a \<Rightarrow> nat) xs) + f y"
proof -
  have "xs[p := y] = take p xs @ y # drop (Suc p) xs"
    using assms by (rule upd_conv_take_nth_drop)
  then have "sum_list (map f (xs[p := y])) = sum_list (map f (take p xs @ drop (Suc p) xs)) + f y"
    by simp
  then show ?thesis using sum_list_remove [OF assms, of f] by simp
qed

subsection \<open>The two kinds of event\<close>

lemma event_step_empty: "inflight s = [] \<Longrightarrow> event_step k s = s"
  by (simp add: event_step_def)

lemma event_step_running:
  "inflight s \<noteq> [] \<Longrightarrow> inflight s ! (k mod length (inflight s)) = (i, Running out) \<Longrightarrow>
   event_step k s =
     s\<lparr> results_arr := js_set (results_arr s) i (capture out),
        inflight := (inflight s)[k mod length (inflight s) := (i, Stored)] \<rparr>"
  by (simp add: event_step_def Let_def)

lemma event_step_stored:
  "inflight s \<noteq> [] \<Longrightarrow> inflight s ! (k mod length (inflight s)) = (i, Stored) \<Longrightarrow>
   event_step k s =
     s\<lparr> active := active s - 1,
        inflight := take (k mod length (inflight s)) (inflight s)
                    @ drop (Suc (k mod length (inflight s))) (inflight s),
        pc := InNext \<rparr>"
  by (simp add: event_step_def Let_def)

subsection \<open>The invariants hold initially\<close>

lemma queue_inv_init: "0 \<le> limit \<Longrightarrow> queue_inv tasks limit queue_init"
  by (simp add: queue_inv_def inv_count_def inv_flight_def inv_results_def inv_control_def
      queue_init_def)

subsection \<open>Steps of \<open>next\<close>\<close>

lemma next_step_count:
  "inv_count tasks limit s \<Longrightarrow> inv_count tasks limit (next_step tasks limit s)"
  by (auto simp: inv_count_def next_step_def)

lemma next_step_flight:
  "inv_flight tasks s \<Longrightarrow> inv_flight tasks (next_step tasks limit s)"
  by (fastforce simp: inv_flight_def next_step_def)

lemma next_step_results:
  assumes "inv_results tasks s"
  shows "inv_results tasks (next_step tasks limit s)"
proof (cases "active s < limit \<and> index s < length tasks")
  case False
  with assms show ?thesis by (simp add: inv_results_def next_step_def)
next
  case True
  have len: "length (results_arr s) \<le> index s"
    and old: "\<And>i. i < index s \<Longrightarrow> (i, Running (tasks ! i)) \<notin> set (inflight s) \<Longrightarrow>
              i < length (results_arr s) \<and> results_arr s ! i = Some (capture (tasks ! i))"
    using assms by (auto simp: inv_results_def)
  let ?s' = "next_step tasks limit s"
  have s': "index ?s' = index s + 1" "results_arr ?s' = results_arr s"
    "inflight ?s' = inflight s @ [(index s, Running (tasks ! index s))]"
    using True by (simp_all add: next_step_def)
  have "i < length (results_arr ?s') \<and> results_arr ?s' ! i = Some (capture (tasks ! i))"
    if i: "i < index ?s'" and out: "(i, Running (tasks ! i)) \<notin> set (inflight ?s')" for i
  proof -
    from out have "i \<noteq> index s" and "(i, Running (tasks ! i)) \<notin> set (inflight s)"
      by (auto simp: s')
    with i have "i < index s" by (simp add: s')
    then show ?thesis using old \<open>(i, Running (tasks ! i)) \<notin> set (inflight s)\<close> by (simp add: s')
  qed
  moreover have "length (results_arr ?s') \<le> index ?s'" using len by (simp add: s')
  ultimately show ?thesis unfolding inv_results_def by blast
qed

lemma next_step_control:
  "inv_control tasks limit s \<Longrightarrow> pc s = InNext \<Longrightarrow> inv_control tasks limit (next_step tasks limit s)"
  by (auto simp: inv_control_def next_step_def)

lemma next_step_inv:
  "queue_inv tasks limit s \<Longrightarrow> pc s = InNext \<Longrightarrow> queue_inv tasks limit (next_step tasks limit s)"
  by (simp add: queue_inv_def next_step_count next_step_flight next_step_results next_step_control)

subsection \<open>Callbacks\<close>

lemma event_step_inv:
  assumes inv: "queue_inv tasks limit s" and idle: "pc s = Idle"
  shows "queue_inv tasks limit (event_step k s)"
proof (cases "inflight s = []")
  case True
  with inv show ?thesis by (simp add: event_step_empty)
next
  case False
  let ?p = "k mod length (inflight s)"
  have p: "?p < length (inflight s)" using False by simp
  have parts: "inv_count tasks limit s" "inv_flight tasks s" "inv_results tasks s"
    "inv_control tasks limit s"
    using inv unfolding queue_inv_def by blast+
  have cnt: "active s = int (length (inflight s))" "active s \<le> limit" "index s \<le> length tasks"
    using parts(1) unfolding inv_count_def by blast+
  have fl: "\<And>i st. (i, st) \<in> set (inflight s) \<Longrightarrow> i < index s \<and> (st = Stored \<or> st = Running (tasks ! i))"
    using parts(2) unfolding inv_flight_def by blast
  have len: "length (results_arr s) \<le> index s"
    and old: "\<And>i. i < index s \<Longrightarrow> (i, Running (tasks ! i)) \<notin> set (inflight s) \<Longrightarrow>
              i < length (results_arr s) \<and> results_arr s ! i = Some (capture (tasks ! i))"
    using parts(3) unfolding inv_results_def by blast+
  have act: "active s \<noteq> 0" using cnt(1) False by simp
  have nores: "\<not> resolved s"
    using parts(4) act unfolding inv_control_def by blast
  have ctl: "limit \<le> active s \<or> length tasks \<le> index s"
    using parts(4) idle unfolding inv_control_def by blast
  obtain i0 st0 where e: "inflight s ! ?p = (i0, st0)" by (rule prod.exhaust)
  have mem: "(i0, st0) \<in> set (inflight s)" using p e by (metis nth_mem)
  have i0: "i0 < index s" using fl [OF mem] by simp
  show ?thesis
  proof (cases st0)
    case (Running out)
    have out: "out = tasks ! i0" using fl [OF mem] Running by simp
    let ?s' = "event_step k s"
    have s': "?s' = s\<lparr> results_arr := js_set (results_arr s) i0 (capture out),
                        inflight := (inflight s)[?p := (i0, Stored)] \<rparr>"
      using event_step_running [OF False] e Running by simp
    have f': "index ?s' = index s" "active ?s' = active s" "pc ?s' = pc s" "resolved ?s' = resolved s"
      "results_arr ?s' = js_set (results_arr s) i0 (capture out)"
      "inflight ?s' = (inflight s)[?p := (i0, Stored)]"
      by (simp_all add: s')
    have c1: "inv_count tasks limit ?s'" using cnt by (simp add: inv_count_def f')
    have c2: "inv_flight tasks ?s'"
    proof -
      have "i < index s \<and> (st = Stored \<or> st = Running (tasks ! i))"
        if "(i, st) \<in> set ((inflight s)[?p := (i0, Stored)])" for i st
      proof -
        from that have "(i, st) = (i0, Stored) \<or> (i, st) \<in> set (inflight s)"
          using set_update_subset_insert [of "inflight s" ?p "(i0, Stored)"] by auto
        then show ?thesis using i0 fl by auto
      qed
      then show ?thesis by (auto simp: inv_flight_def f')
    qed
    have c3: "inv_results tasks ?s'"
    proof -
      have l': "length (results_arr ?s') \<le> index ?s'"
        using len i0 by (simp add: f' js_set_length)
      have "i < length (results_arr ?s') \<and> results_arr ?s' ! i = Some (capture (tasks ! i))"
        if i: "i < index ?s'" and notin: "(i, Running (tasks ! i)) \<notin> set (inflight ?s')" for i
      proof (cases "i = i0")
        case True
        then show ?thesis by (simp add: f' js_set_length js_set_same out)
      next
        case ne: False
        have "(i, Running (tasks ! i)) \<notin> set (inflight s)"
        proof
          assume a: "(i, Running (tasks ! i)) \<in> set (inflight s)"
          have "(i, Running (tasks ! i)) \<noteq> inflight s ! ?p" using e ne by simp
          from in_set_update_other [OF a this] notin show False by (simp add: f')
        qed
        with old i have "i < length (results_arr s) \<and> results_arr s ! i = Some (capture (tasks ! i))"
          by (simp add: f')
        then show ?thesis using ne by (auto simp add: f' js_set_length js_set_other)
      qed
      with l' show ?thesis unfolding inv_results_def by blast
    qed
    have c4: "inv_control tasks limit ?s'"
      using ctl nores idle act by (simp add: inv_control_def f')
    show ?thesis using c1 c2 c3 c4 by (simp add: queue_inv_def)
  next
    case Stored
    let ?s' = "event_step k s"
    have s': "?s' = s\<lparr> active := active s - 1,
                        inflight := take ?p (inflight s) @ drop (Suc ?p) (inflight s),
                        pc := InNext \<rparr>"
      using event_step_stored [OF False] e Stored by simp
    have f': "index ?s' = index s" "active ?s' = active s - 1" "pc ?s' = InNext"
      "resolved ?s' = resolved s" "results_arr ?s' = results_arr s"
      "inflight ?s' = take ?p (inflight s) @ drop (Suc ?p) (inflight s)"
      by (simp_all add: s')
    have c1: "inv_count tasks limit ?s'"
      using cnt p length_remove [OF p] by (simp add: inv_count_def f' del: length_append)
    have c2: "inv_flight tasks ?s'"
      using fl set_remove_subset [of ?p "inflight s"] by (auto simp: inv_flight_def f')
    have c3: "inv_results tasks ?s'"
    proof -
      have "i < length (results_arr s) \<and> results_arr s ! i = Some (capture (tasks ! i))"
        if i: "i < index s" and notin: "(i, Running (tasks ! i)) \<notin> set (inflight ?s')" for i
      proof -
        have "(i, Running (tasks ! i)) \<notin> set (inflight s)"
        proof
          assume a: "(i, Running (tasks ! i)) \<in> set (inflight s)"
          have "(i, Running (tasks ! i)) \<noteq> inflight s ! ?p" using e Stored by simp
          from in_set_remove_other [OF a this p] notin show False by (simp add: f')
        qed
        with old i show ?thesis by simp
      qed
      with len show ?thesis unfolding inv_results_def by (simp add: f')
    qed
    have c4: "inv_control tasks limit ?s'"
      using nores by (simp add: inv_control_def f')
    show ?thesis using c1 c2 c3 c4 by (simp add: queue_inv_def)
  qed
qed

lemma queue_step_inv:
  "queue_inv tasks limit s \<Longrightarrow> queue_inv tasks limit (queue_step tasks limit s k)"
  by (cases "pc s") (simp_all add: queue_step_def next_step_inv event_step_inv)

lemma foldl_queue_inv:
  "queue_inv tasks limit s \<Longrightarrow> queue_inv tasks limit (foldl (queue_step tasks limit) s sched)"
  by (induction sched arbitrary: s) (simp_all add: queue_step_inv)

lemma queue_run_inv: "0 \<le> limit \<Longrightarrow> queue_inv tasks limit (queue_run tasks limit sched)"
  by (simp add: queue_run_def foldl_queue_inv queue_inv_init)

subsection \<open>Progress\<close>

lemma stage_work_pos: "0 < stage_work x"
  by (cases x rule: stage_work.cases) simp_all

lemma no_work_no_flight: "sum_list (map stage_work xs) = 0 \<Longrightarrow> xs = []"
proof (cases xs)
  case Nil
  then show ?thesis by simp
next
  case (Cons x ys)
  assume "sum_list (map stage_work xs) = 0"
  with Cons stage_work_pos [of x] show ?thesis by simp
qed

lemma next_step_work:
  "pc s = InNext \<Longrightarrow> Suc (work_left tasks (next_step tasks limit s)) = work_left tasks s"
  by (auto simp: work_left_def next_step_def)

lemma event_step_work:
  assumes ne: "inflight s \<noteq> []" and idle: "pc s = Idle"
  shows "Suc (work_left tasks (event_step k s)) = work_left tasks s"
proof -
  let ?p = "k mod length (inflight s)"
  have p: "?p < length (inflight s)" using ne by simp
  obtain i0 st0 where e: "inflight s ! ?p = (i0, st0)" by (rule prod.exhaust)
  show ?thesis
  proof (cases st0)
    case (Running out)
    have s': "event_step k s = s\<lparr> results_arr := js_set (results_arr s) i0 (capture out),
                        inflight := (inflight s)[?p := (i0, Stored)] \<rparr>"
      using event_step_running [OF ne, of k i0 out] e Running by simp
    have "sum_list (map stage_work ((inflight s)[?p := (i0, Stored)])) + 3
          = sum_list (map stage_work (inflight s)) + 2"
      using sum_list_update [OF p, of stage_work "(i0, Stored)"] e Running by simp
    then show ?thesis using idle by (simp add: s' work_left_def)
  next
    case Stored
    have s': "event_step k s = s\<lparr> active := active s - 1,
                        inflight := take ?p (inflight s) @ drop (Suc ?p) (inflight s),
                        pc := InNext \<rparr>"
      using event_step_stored [OF ne, of k i0] e Stored by simp
    have "sum_list (map stage_work (take ?p (inflight s) @ drop (Suc ?p) (inflight s))) + 2
          = sum_list (map stage_work (inflight s))"
      using sum_list_remove [OF p, of stage_work] e Stored by simp
    then show ?thesis using idle by (simp add: s' work_left_def del: map_append)
  qed
qed

lemma queue_step_work:
  assumes inv: "queue_inv tasks limit s" and lim: "1 \<le> limit"
  shows "(work_left tasks s = 0 \<and> queue_step tasks limit s k = s)
       \<or> Suc (work_left tasks (queue_step tasks limit s k)) = work_left tasks s"
proof (cases "pc s")
  case InNext
  then show ?thesis by (simp add: queue_step_def next_step_work)
next
  case Idle
  show ?thesis
  proof (cases "inflight s = []")
    case False
    then show ?thesis using Idle by (simp add: queue_step_def event_step_work)
  next
    case True
    have parts: "inv_count tasks limit s" "inv_control tasks limit s"
      using inv unfolding queue_inv_def by blast+
    have "active s = int (length (inflight s))"
      using parts(1) unfolding inv_count_def by blast
    then have "active s = 0" using True by simp
    moreover have "limit \<le> active s \<or> length tasks \<le> index s"
      using parts(2) Idle unfolding inv_control_def by blast
    ultimately have "length tasks \<le> index s" using lim by simp
    then show ?thesis using True Idle
      by (simp add: queue_step_def event_step_empty work_left_def)
  qed
qed

lemma foldl_work:
  "queue_inv tasks limit s \<Longrightarrow> 1 \<le> limit \<Longrightarrow> work_left tasks s \<le> length sched \<Longrightarrow>
   work_left tasks (foldl (queue_step tasks limit) s sched) = 0"
proof (induction sched arbitrary: s)
  case Nil
  then show ?case by simp
next
  case (Cons k ks)
  let ?s' = "queue_step tasks limit s k"
  have inv': "queue_inv tasks limit ?s'" using Cons.prems(1) by (rule queue_step_inv)
  have "work_left tasks ?s' \<le> length ks"
    using queue_step_work [OF Cons.prems(1,2), of k] Cons.prems(3) by auto
  from Cons.IH [OF inv' Cons.prems(2) this] show ?case by simp
qed

lemma work_left_init: "work_left tasks queue_init = 4 * length tasks + 1"
  by (simp add: work_left_def queue_init_def)

lemma no_work_resolved:
  assumes inv: "queue_inv tasks limit s" and z: "work_left tasks s = 0"
  shows "resolved s"
proof -
  have idle: "pc s = Idle" using z by (cases "pc s") (simp_all add: work_left_def)
  have "sum_list (map stage_work (inflight s)) = 0" and ix: "length tasks \<le> index s"
    using z by (simp_all add: work_left_def)
  then have fl: "inflight s = []" by (simp add: no_work_no_flight)
  have parts: "inv_count tasks limit s" "inv_control tasks limit s"
    using inv unfolding queue_inv_def by blast+
  have "active s = int (length (inflight s))"
    using parts(1) unfolding inv_count_def by blast
  then have "active s = 0" using fl by simp
  moreover have "pc s = Idle \<and> length tasks \<le> index s \<and> active s = 0 \<longrightarrow> resolved s"
    using parts(2) unfolding inv_control_def by blast
  ultimately show ?thesis using idle ix by blast
qed

subsection \<open>The resolved array\<close>

lemma resolved_results:
  assumes inv: "queue_inv tasks limit s" and res: "resolved s"
  shows "results_arr s = map (Some \<circ> capture) tasks"
proof -
  have parts: "inv_count tasks limit s" "inv_results tasks s" "inv_control tasks limit s"
    using inv unfolding queue_inv_def by blast+
  have "length tasks \<le> index s" "active s = 0"
    using parts(3) res unfolding inv_control_def by blast+
  moreover have "active s = int (length (inflight s))" "index s \<le> length tasks"
    using parts(1) unfolding inv_count_def by blast+
  ultimately have ix: "index s = length tasks" and fl: "inflight s = []" by simp_all
  have len: "length (results_arr s) \<le> length tasks"
    and slot: "\<And>i. i < length tasks \<Longrightarrow>
                 i < length (results_arr s) \<and> results_arr s ! i = Some (capture (tasks ! i))"
    using parts(2) unfolding inv_results_def by (simp_all add: ix fl)
  have "length (results_arr s) = length tasks"
  proof (cases "length tasks")
    case 0
    with len show ?thesis by simp
  next
    case (Suc n)
    then have "n < length (results_arr s)" using slot [of n] by simp
    with len Suc show ?thesis by simp
  qed
  then show ?thesis using slot by (intro nth_equalityI) simp_all
qed

text \<open>
  Claim C1. For a limit of at least 1 and callbacks running in any order, the promise of
  \<open>queueRun\<close> resolves once every callback has run, which \<open>4 * length tasks + 1\<close>
  steps always achieve, and whenever it has resolved its array has the length of the
  task list and holds at each index what the task of that index settled with: the value
  of a fulfilled task, the error object of a rejected one.
\<close>

theorem queueRun_results_by_index:
  assumes "1 \<le> limit"
  shows "(queueRun tasks limit sched = None
          \<or> queueRun tasks limit sched = Some (map (Some \<circ> capture) tasks))
       \<and> (4 * length tasks + 1 \<le> length sched \<longrightarrow>
            queueRun tasks limit sched = Some (map (Some \<circ> capture) tasks))"
proof -
  let ?s = "queue_run tasks limit sched"
  have inv: "queue_inv tasks limit ?s" using assms by (simp add: queue_run_inv)
  have a: "queueRun tasks limit sched = Some (map (Some \<circ> capture) tasks)" if "resolved ?s"
    using that resolved_results [OF inv that] by (simp add: queueRun_def Let_def)
  have b: "queueRun tasks limit sched = None" if "\<not> resolved ?s"
    using that by (simp add: queueRun_def Let_def)
  have c: "resolved ?s" if long: "4 * length tasks + 1 \<le> length sched"
  proof -
    have i0: "queue_inv tasks limit queue_init" using assms by (simp add: queue_inv_init)
    have "work_left tasks queue_init \<le> length sched" using long by (simp add: work_left_init)
    from foldl_work [OF i0 assms this] have "work_left tasks ?s = 0" by (simp add: queue_run_def)
    with inv show ?thesis by (rule no_work_resolved)
  qed
  show ?thesis using a b c by blast
qed

text \<open>
  The witness: three tasks under limit 2, the second rejecting and finishing before the
  first.
\<close>

theorem queueRun_results_by_index_witness:
  "(1::int) \<le> 2
   \<and> 4 * length [Fulfilled (10::nat), Rejected (0::nat), Fulfilled 30] + 1
       \<le> length [0, 0, 0, 1, 1, 0, 0, 0, 0, 7, 0, 0, 0::nat]
   \<and> queueRun [Fulfilled (10::nat), Rejected (0::nat), Fulfilled 30] 2
        [0, 0, 0, 1, 1, 0, 0, 0, 0, 7, 0, 0, 0]
      = Some [Some (Res 10), Some (ErrorObj 0), Some (Res 30)]"
proof -
  have l: "(1::int) \<le> 2" by simp
  have n: "4 * length [Fulfilled (10::nat), Rejected (0::nat), Fulfilled 30] + 1
       \<le> length [0, 0, 0, 1, 1, 0, 0, 0, 0, 7, 0, 0, 0::nat]" by simp
  from queueRun_results_by_index [OF l, of "[Fulfilled (10::nat), Rejected (0::nat), Fulfilled 30]"
      "[0, 0, 0, 1, 1, 0, 0, 0, 0, 7, 0, 0, 0]"] n
  have "queueRun [Fulfilled (10::nat), Rejected (0::nat), Fulfilled 30] 2
        [0, 0, 0, 1, 1, 0, 0, 0, 0, 7, 0, 0, 0]
      = Some (map (Some \<circ> capture) [Fulfilled (10::nat), Rejected (0::nat), Fulfilled 30])"
    by blast
  then show ?thesis using l n by (simp add: capture_def)
qed

text \<open>
  Claim C8. For a limit of at least 1, in every state a run passes through, the tasks
  started and not yet finished number at most the limit, and \<open>active\<close> counts them.
\<close>

theorem queueRun_at_most_limit_active:
  assumes "1 \<le> limit"
  shows "int (length (inflight (queue_run tasks limit sched))) \<le> limit
       \<and> active (queue_run tasks limit sched) = int (length (inflight (queue_run tasks limit sched)))"
proof -
  have "queue_inv tasks limit (queue_run tasks limit sched)" using assms by (simp add: queue_run_inv)
  then have "inv_count tasks limit (queue_run tasks limit sched)" unfolding queue_inv_def by blast
  then show ?thesis unfolding inv_count_def by simp
qed

text \<open>The witness: after the first call of \<open>next\<close>, two of three tasks are active.\<close>

theorem queueRun_at_most_limit_active_witness:
  "(1::int) \<le> 2
   \<and> int (length (inflight (queue_run [Fulfilled (10::nat), Rejected (0::nat), Fulfilled 30] 2 [0, 0, 0, 1]))) \<le> 2
   \<and> active (queue_run [Fulfilled (10::nat), Rejected (0::nat), Fulfilled 30] 2 [0, 0, 0, 1]) = 2"
proof -
  have l: "(1::int) \<le> 2" by simp
  have a: "active (queue_run [Fulfilled (10::nat), Rejected (0::nat), Fulfilled 30] 2 [0, 0, 0, 1]) = 2"
    by code_simp
  show ?thesis
    using queueRun_at_most_limit_active
      [OF l, of "[Fulfilled (10::nat), Rejected (0::nat), Fulfilled 30]" "[0, 0, 0, 1]"] a l
    by simp
qed

end
